theory Spec2Isabelle
  imports Main
begin

section \<open>Checkable dependencies of Icinga 2: data model\<close>

text \<open>
  The development embeds \<^verbatim>\<open>lib/icinga/checkable-dependency.cpp\<close>. A checkable is
  referred to through its \<^verbatim>\<open>Checkable::Ptr\<close>; the pointer is modelled by a natural number
  (its address), and a \<^verbatim>\<open>std::set<Checkable::Ptr>\<close> by the strictly increasing list of
  its members, which is the order in which the C++ set is iterated.
\<close>

type_synonym cptr = nat

text \<open>
  The enumerations come from headers of the repository that the translation unit only
  includes. \<^verbatim>\<open>IsReachable\<close> compares a dependency type with \<^verbatim>\<open>DependencyState\<close> and
  \<^verbatim>\<open>DependencyNotification\<close>, a host state with \<^verbatim>\<open>HostUp\<close> and a state type with
  \<^verbatim>\<open>StateTypeHard\<close>; each datatype has these values and the remaining one of its header.
\<close>

datatype DependencyType = DependencyState | DependencyCheckExecution | DependencyNotification

datatype HostState = HostUp | HostDown

datatype StateType = StateTypeSoft | StateTypeHard

text \<open>
  A dependency edge, with the getters the file calls on it. \<^verbatim>\<open>GetParent\<close> and
  \<^verbatim>\<open>GetChild\<close> return a pointer that may be null (\<open>None\<close>).
\<close>

record dependency =
  GetName :: string
  GetParent :: "cptr option"
  GetChild :: "cptr option"
  GetRedundancyGroup :: string

text \<open>
  The \<^verbatim>\<open>std::unordered_map<std::string, Dependency::Ptr>\<close> of \<^verbatim>\<open>IsReachable\<close>: an
  association list with one entry for each key, in the order of first insertion. The value
  \<open>None\<close> is the null pointer (group satisfied).
\<close>

type_synonym violated_map = "(string \<times> dependency option) list"

text \<open>
  Everything the functions read from the running program:
  \<^item> \<open>is_service c\<close>: the \<^verbatim>\<open>dynamic_cast<const Service *>\<close> of the checkable succeeds;
  \<^item> \<open>GetHost c\<close>: the host of a service (\<open>None\<close> is the null pointer);
  \<^item> \<open>GetState h\<close>, \<open>GetStateType h\<close>: the state of a host;
  \<^item> \<open>m_Dependencies c\<close>, \<open>m_ReverseDependencies c\<close>: the two edge sets of a
    checkable, each given by the sequence in which the set is iterated;
  \<^item> \<open>IsAvailable dep dt\<close>: \<^verbatim>\<open>Dependency::IsAvailable\<close>, which is defined outside this
    file and is therefore a parameter;
  \<^item> \<open>unordered_iteration m\<close>: the sequence from \<^verbatim>\<open>begin()\<close> to \<^verbatim>\<open>end()\<close> of an
    unordered map with the entries \<open>m\<close>. The C++ standard leaves that order to the
    implementation, so it is a parameter as well; the theorems that depend on it assume
    only that it enumerates the entries of the map.
\<close>

record world =
  is_service :: "cptr \<Rightarrow> bool"
  GetHost :: "cptr \<Rightarrow> cptr option"
  GetState :: "cptr \<Rightarrow> HostState"
  GetStateType :: "cptr \<Rightarrow> StateType"
  m_Dependencies :: "cptr \<Rightarrow> dependency list"
  m_ReverseDependencies :: "cptr \<Rightarrow> dependency list"
  IsAvailable :: "dependency \<Rightarrow> DependencyType \<Rightarrow> bool"
  unordered_iteration :: "violated_map \<Rightarrow> violated_map"

definition l_MaxDependencyRecursionLevel :: int where
  "l_MaxDependencyRecursionLevel = 256"

section \<open>The dependency store and the derived parent and child sets\<close>

text \<open>
  \<^verbatim>\<open>GetDependencies\<close> and \<^verbatim>\<open>GetReverseDependencies\<close> copy the edge set into a vector
  under the mutex of the checkable; the functions below work on that copy. The lock has no
  counterpart in this sequential model.
\<close>

definition GetDependencies :: "world \<Rightarrow> cptr \<Rightarrow> dependency list" where
  "GetDependencies w this = m_Dependencies w this"

definition GetReverseDependencies :: "world \<Rightarrow> cptr \<Rightarrow> dependency list" where
  "GetReverseDependencies w this = m_ReverseDependencies w this"

text \<open>\<^verbatim>\<open>std::set::insert\<close> of one element, and of a range of elements.\<close>

definition set_insert :: "cptr \<Rightarrow> cptr list \<Rightarrow> cptr list" where
  "set_insert x xs = (if x \<in> set xs then xs else insort x xs)"

definition set_insert_range :: "cptr list \<Rightarrow> cptr list \<Rightarrow> cptr list" where
  "set_insert_range ys xs = fold set_insert ys xs"

fun GetParents_loop :: "cptr \<Rightarrow> dependency list \<Rightarrow> cptr list \<Rightarrow> cptr list" where
  "GetParents_loop this [] parents = parents"
| "GetParents_loop this (dep # deps) parents =
     GetParents_loop this deps
       (case GetParent dep of
          None \<Rightarrow> parents
        | Some parent \<Rightarrow> if parent \<noteq> this then set_insert parent parents else parents)"

definition GetParents :: "world \<Rightarrow> cptr \<Rightarrow> cptr list" where
  "GetParents w this = GetParents_loop this (GetDependencies w this) []"

fun GetChildren_loop :: "cptr \<Rightarrow> dependency list \<Rightarrow> cptr list \<Rightarrow> cptr list" where
  "GetChildren_loop this [] parents = parents"
| "GetChildren_loop this (dep # deps) parents =
     GetChildren_loop this deps
       (case GetChild dep of
          None \<Rightarrow> parents
        | Some service \<Rightarrow> if service \<noteq> this then set_insert service parents else parents)"

definition GetChildren :: "world \<Rightarrow> cptr \<Rightarrow> cptr list" where
  "GetChildren w this = GetChildren_loop this (GetReverseDependencies w this) []"

section \<open>Reachability\<close>

text \<open>
  The parameter \<^verbatim>\<open>Dependency::Ptr *failedDependency\<close>: \<open>NoOut\<close> is the null pointer,
  \<open>Out v\<close> a pointer to a variable of the caller that holds \<open>v\<close> (where \<open>None\<close> is
  \<^verbatim>\<open>nullptr\<close>). \<^verbatim>\<open>IsReachable\<close> returns its result together with the variable after
  the call.
\<close>

datatype failed_out = NoOut | Out "dependency option"

text \<open>\<^verbatim>\<open>if (failedDependency) *failedDependency = v;\<close>\<close>

fun store :: "failed_out \<Rightarrow> dependency option \<Rightarrow> failed_out" where
  "store NoOut v = NoOut"
| "store (Out old) v = Out v"

text \<open>The condition of the implicit dependency of a service on its host.\<close>

definition host_gate :: "world \<Rightarrow> cptr \<Rightarrow> DependencyType \<Rightarrow> bool" where
  "host_gate w this dt =
     (is_service w this \<and> (dt = DependencyState \<or> dt = DependencyNotification) \<and>
      (case GetHost w this of
         None \<Rightarrow> False
       | Some host \<Rightarrow> GetState w host \<noteq> HostUp \<and> GetStateType w host = StateTypeHard))"

text \<open>
  \<^verbatim>\<open>violated.insert(std::make_pair(k, v))\<close> keeps an entry that is already there;
  \<^verbatim>\<open>violated[k] = v\<close> overwrites it.
\<close>

definition umap_insert :: "string \<Rightarrow> dependency option \<Rightarrow> violated_map \<Rightarrow> violated_map" where
  "umap_insert k v m = (if k \<in> set (map fst m) then m else m @ [(k, v)])"

definition umap_assign :: "string \<Rightarrow> dependency option \<Rightarrow> violated_map \<Rightarrow> violated_map" where
  "umap_assign k v m =
     (if k \<in> set (map fst m) then map (\<lambda>e. if fst e = k then (k, v) else e) m
      else m @ [(k, v)])"

text \<open>
  The loop over the outgoing edges. \<open>Inl dep\<close> is the early return at an unavailable
  edge without a redundancy group; \<open>Inr violated\<close> is the map when the loop has run to
  its end.
\<close>

fun deps_loop ::
  "world \<Rightarrow> DependencyType \<Rightarrow> dependency list \<Rightarrow> violated_map \<Rightarrow> dependency + violated_map"
where
  "deps_loop w dt [] violated = Inr violated"
| "deps_loop w dt (dep # deps) violated =
     (let redundancy_group = GetRedundancyGroup dep in
      if \<not> IsAvailable w dep dt then
        if redundancy_group = [] then Inl dep
        else deps_loop w dt deps (umap_insert redundancy_group (Some dep) violated)
      else if redundancy_group \<noteq> [] then
        deps_loop w dt deps (umap_assign redundancy_group None violated)
      else deps_loop w dt deps violated)"

text \<open>
  \<^verbatim>\<open>std::find_if(violated.begin(), violated.end(), ...)\<close>: the first entry, in the
  iteration order of the map, whose value is not null.
\<close>

definition find_violator :: "world \<Rightarrow> violated_map \<Rightarrow> (string \<times> dependency option) option" where
  "find_violator w violated = find (\<lambda>v. snd v \<noteq> None) (unordered_iteration w violated)"

text \<open>
  \<^verbatim>\<open>Checkable::IsReachable\<close>, with the loop over the parents as a second function. The
  log messages are left out. The recursion ends because the depth grows towards the
  ceiling; the depth is a C++ \<^verbatim>\<open>int\<close>, which is incremented only at or below the ceiling
  and so never overflows.
\<close>

function IsReachable ::
    "world \<Rightarrow> cptr \<Rightarrow> DependencyType \<Rightarrow> failed_out \<Rightarrow> int \<Rightarrow> bool \<times> failed_out"
  and IsReachable_parents ::
    "world \<Rightarrow> cptr list \<Rightarrow> DependencyType \<Rightarrow> failed_out \<Rightarrow> int \<Rightarrow> bool \<times> failed_out"
where
  "IsReachable w this dt failedDependency rstack =
     (if rstack > l_MaxDependencyRecursionLevel then (False, failedDependency)
      else
        let r = IsReachable_parents w (GetParents w this) dt failedDependency rstack in
        if \<not> fst r then (False, snd r)
        else if host_gate w this dt then (False, store (snd r) None)
        else
          (case deps_loop w dt (GetDependencies w this) [] of
             Inl dep \<Rightarrow> (False, store (snd r) (Some dep))
           | Inr violated \<Rightarrow>
               (case find_violator w violated of
                  Some violator \<Rightarrow> (False, store (snd r) (snd violator))
                | None \<Rightarrow> (True, store (snd r) None))))"
| "IsReachable_parents w [] dt failedDependency rstack = (True, failedDependency)"
| "IsReachable_parents w (checkable # rest) dt failedDependency rstack =
     (let r = IsReachable w checkable dt failedDependency (rstack + 1) in
      if \<not> fst r then (False, snd r)
      else IsReachable_parents w rest dt (snd r) rstack)"
  by pat_completeness auto
termination
  by (relation "measures
        [\<lambda>x. case x of
                Inl (w, this, dt, fd, rstack) \<Rightarrow>
                  if rstack > l_MaxDependencyRecursionLevel then 0
                  else 2 * nat (l_MaxDependencyRecursionLevel + 1 - rstack) + 2
              | Inr (w, ps, dt, fd, rstack) \<Rightarrow>
                  2 * nat (l_MaxDependencyRecursionLevel + 1 - rstack) + 1,
         \<lambda>x. case x of
                Inl (w, this, dt, fd, rstack) \<Rightarrow> 0
              | Inr (w, ps, dt, fd, rstack) \<Rightarrow> length ps]")
    (auto simp: l_MaxDependencyRecursionLevel_def)

section \<open>The transitive closure of the child relation\<close>

text \<open>
  \<^verbatim>\<open>GetAllChildrenInternal\<close> changes the set it is given by reference; the model
  returns the set after the call. The second function is its loop over \<^verbatim>\<open>children\<close>,
  which fills \<^verbatim>\<open>localChildren\<close>. The receiver of the call is used for the log message
  only and is left out with it.
\<close>

function GetAllChildrenInternal :: "world \<Rightarrow> cptr list \<Rightarrow> int \<Rightarrow> cptr list"
  and GetAllChildrenInternal_loop :: "world \<Rightarrow> cptr list \<Rightarrow> int \<Rightarrow> cptr list \<Rightarrow> cptr list"
where
  "GetAllChildrenInternal w children level =
     (if level > l_MaxDependencyRecursionLevel then children
      else set_insert_range (GetAllChildrenInternal_loop w children level []) children)"
| "GetAllChildrenInternal_loop w [] level localChildren = localChildren"
| "GetAllChildrenInternal_loop w (checkable # rest) level localChildren =
     (let cChildren = GetChildren w checkable;
          localChildren1 =
            (if cChildren \<noteq> [] then
               set_insert_range (GetAllChildrenInternal w cChildren (level + 1)) localChildren
             else localChildren);
          localChildren2 =
            (if level \<noteq> 0 then set_insert checkable localChildren1 else localChildren1)
      in GetAllChildrenInternal_loop w rest level localChildren2)"
  by pat_completeness auto
termination
  by (relation "measures
        [\<lambda>x. case x of
                Inl (w, children, level) \<Rightarrow>
                  if level > l_MaxDependencyRecursionLevel then 0
                  else 2 * nat (l_MaxDependencyRecursionLevel + 1 - level) + 2
              | Inr (w, children, level, localChildren) \<Rightarrow>
                  2 * nat (l_MaxDependencyRecursionLevel + 1 - level) + 1,
         \<lambda>x. case x of
                Inl (w, children, level) \<Rightarrow> 0
              | Inr (w, children, level, localChildren) \<Rightarrow> length children]")
    (auto simp: l_MaxDependencyRecursionLevel_def)

definition GetAllChildren :: "world \<Rightarrow> cptr \<Rightarrow> cptr list" where
  "GetAllChildren w this = GetAllChildrenInternal w (GetChildren w this) 0"

definition GetAllChildrenCount :: "world \<Rightarrow> cptr \<Rightarrow> nat" where
  "GetAllChildrenCount w this = length (GetAllChildren w this)"

section \<open>Linear chains and example configurations\<close>

text \<open>
  A linear dependency chain \<open>c\<^sub>0, c\<^sub>1, \<dots>, c\<^sub>n\<close>: every checkable but the last has
  exactly one outgoing edge, which is available and leads to the next checkable; the last
  one has no outgoing edge. A chain of \<open>n + 1\<close> checkables has \<open>n\<close> edges.
\<close>

fun linear_chain :: "world \<Rightarrow> DependencyType \<Rightarrow> cptr list \<Rightarrow> bool" where
  "linear_chain w dt [] = False"
| "linear_chain w dt [c] = (GetDependencies w c = [])"
| "linear_chain w dt (c # p # cs) =
     ((case GetDependencies w c of
         [dep] \<Rightarrow> GetParent dep = Some p \<and> p \<noteq> c \<and> IsAvailable w dep dt
       | _ \<Rightarrow> False) \<and>
      linear_chain w dt (p # cs))"

text \<open>An edge from a child to a parent, with a name and a redundancy group.\<close>

definition mk_dep :: "string \<Rightarrow> cptr \<Rightarrow> cptr \<Rightarrow> string \<Rightarrow> dependency" where
  "mk_dep name child parent redundancy_group =
     \<lparr>GetName = name, GetParent = Some parent, GetChild = Some child,
      GetRedundancyGroup = redundancy_group\<rparr>"

text \<open>
  The configuration without any edge: every checkable is a host that is up, and an
  unordered map is iterated in the order of insertion. The examples below add edges to it.
\<close>

definition plain_world :: world where
  "plain_world =
     \<lparr>is_service = (\<lambda>c. False), GetHost = (\<lambda>c. None), GetState = (\<lambda>h. HostUp),
      GetStateType = (\<lambda>h. StateTypeHard), m_Dependencies = (\<lambda>c. []),
      m_ReverseDependencies = (\<lambda>c. []), IsAvailable = (\<lambda>dep dt. True),
      unordered_iteration = (\<lambda>m. m)\<rparr>"

text \<open>Checkable 0 with an edge to itself, one parent (1) and one child (2).\<close>

definition self_edge_world :: world where
  "self_edge_world = plain_world
     \<lparr>m_Dependencies :=
        (\<lambda>c. if c = 0 then [mk_dep ''self'' 0 0 [], mk_dep ''up'' 0 1 []] else []),
      m_ReverseDependencies :=
        (\<lambda>c. if c = 0 then [mk_dep ''self'' 0 0 [], mk_dep ''down'' 2 0 []] else [])\<rparr>"

text \<open>
  Service 0 on host 1, which is down in a hard state; the service depends on checkable 2
  through an available edge.
\<close>

definition service_world :: world where
  "service_world = plain_world
     \<lparr>is_service := (\<lambda>c. c = 0),
      GetHost := (\<lambda>c. if c = 0 then Some 1 else None),
      GetState := (\<lambda>h. if h = 1 then HostDown else HostUp),
      m_Dependencies := (\<lambda>c. if c = 0 then [mk_dep ''S-P'' 0 2 []] else [])\<rparr>"

text \<open>
  Checkable 0 depends on 1 through an available edge, and 1 depends on 2 through an edge
  without redundancy group that is not available.
\<close>

definition grandparent_world :: world where
  "grandparent_world = plain_world
     \<lparr>m_Dependencies :=
        (\<lambda>c. if c = 0 then [mk_dep ''A-B'' 0 1 []]
             else if c = 1 then [mk_dep ''B-C'' 1 2 []] else []),
      IsAvailable := (\<lambda>dep dt. GetName dep \<noteq> ''B-C'')\<rparr>"

text \<open>
  Checkable 0 with three outgoing edges: to 1 without redundancy group, available; to 2
  and to 3 in the redundancy group \<open>g1\<close>. In \<open>redundant_world\<close> the edge to 2 is not
  available, in \<open>failed_group_world\<close> neither the edge to 2 nor the edge to 3 is, and in
  \<open>failed_edge_world\<close> the two edges without group (to 1 and to 4) are not.
\<close>

definition redundant_world :: world where
  "redundant_world = plain_world
     \<lparr>m_Dependencies :=
        (\<lambda>c. if c = 0 then
                [mk_dep ''A-B'' 0 1 [], mk_dep ''A-C'' 0 2 ''g1'', mk_dep ''A-D'' 0 3 ''g1'']
              else []),
      IsAvailable := (\<lambda>dep dt. GetName dep \<noteq> ''A-C'')\<rparr>"

definition failed_group_world :: world where
  "failed_group_world = redundant_world
     \<lparr>IsAvailable := (\<lambda>dep dt. GetName dep \<noteq> ''A-C'' \<and> GetName dep \<noteq> ''A-D'')\<rparr>"

definition failed_edge_world :: world where
  "failed_edge_world = plain_world
     \<lparr>m_Dependencies :=
        (\<lambda>c. if c = 0 then
                [mk_dep ''A-C'' 0 2 ''g1'', mk_dep ''A-B'' 0 1 [], mk_dep ''A-E'' 0 4 []]
              else []),
      IsAvailable := (\<lambda>dep dt. GetName dep \<noteq> ''A-B'' \<and> GetName dep \<noteq> ''A-E'')\<rparr>"

text \<open>
  The linear chain with \<open>n\<close> edges on the checkables \<open>0, \<dots>, n\<close>: checkable \<open>c < n\<close>
  depends on \<open>c + 1\<close>, and every edge is available.
\<close>

definition chain_world :: "nat \<Rightarrow> world" where
  "chain_world n = plain_world
     \<lparr>m_Dependencies := (\<lambda>c. if c < n then [mk_dep ''link'' c (Suc c) []] else [])\<rparr>"

text \<open>
  The diamond: B = 1 and D = 3 are the children of A = 0, and C = 2 is a child of both B
  and D. Every edge is in the outgoing set of its child and in the incoming set of its
  parent.
\<close>

definition diamond_world :: world where
  "diamond_world = plain_world
     \<lparr>m_Dependencies :=
        (\<lambda>c. if c = 1 then [mk_dep ''B-A'' 1 0 []]
             else if c = 3 then [mk_dep ''D-A'' 3 0 []]
             else if c = 2 then [mk_dep ''C-B'' 2 1 [], mk_dep ''C-D'' 2 3 []]
             else []),
      m_ReverseDependencies :=
        (\<lambda>c. if c = 0 then [mk_dep ''B-A'' 1 0 [], mk_dep ''D-A'' 3 0 []]
             else if c = 1 then [mk_dep ''C-B'' 2 1 []]
             else if c = 3 then [mk_dep ''C-D'' 2 3 []]
             else [])\<rparr>"

text \<open>The cycle of two checkables: 1 is a child of 0 and 0 is a child of 1.\<close>

definition cycle_world :: world where
  "cycle_world = plain_world
     \<lparr>m_Dependencies :=
        (\<lambda>c. if c = 1 then [mk_dep ''B-A'' 1 0 []]
             else if c = 0 then [mk_dep ''A-B'' 0 1 []]
             else []),
      m_ReverseDependencies :=
        (\<lambda>c. if c = 0 then [mk_dep ''B-A'' 1 0 []]
             else if c = 1 then [mk_dep ''A-B'' 0 1 []]
             else [])\<rparr>"
section \<open>Auxiliary facts: sets as lists, the output variable\<close>


declare IsReachable.simps [simp del]

lemma set_set_insert: "set (set_insert x xs) = insert x (set xs)"
  by (auto simp add: set_insert_def set_insort_key)

lemma distinct_set_insert: "distinct xs \<Longrightarrow> distinct (set_insert x xs)"
  by (simp add: set_insert_def distinct_insort)

lemma set_set_insert_range: "set (set_insert_range ys xs) = set ys \<union> set xs"
  unfolding set_insert_range_def
  by (induction ys arbitrary: xs) (auto simp: set_set_insert)

lemma distinct_set_insert_range: "distinct xs \<Longrightarrow> distinct (set_insert_range ys xs)"
  unfolding set_insert_range_def
  by (induction ys arbitrary: xs) (auto simp: distinct_set_insert)

lemma set_GetParents_loop:
  "set (GetParents_loop this deps ps) =
     set ps \<union> {p. \<exists>dep \<in> set deps. GetParent dep = Some p \<and> p \<noteq> this}"
  by (induction deps arbitrary: ps) (auto simp: set_set_insert split: option.splits)

lemma set_GetChildren_loop:
  "set (GetChildren_loop this deps ps) =
     set ps \<union> {p. \<exists>dep \<in> set deps. GetChild dep = Some p \<and> p \<noteq> this}"
  by (induction deps arbitrary: ps) (auto simp: set_set_insert split: option.splits)

lemma distinct_GetChildren_loop:
  "distinct ps \<Longrightarrow> distinct (GetChildren_loop this deps ps)"
  by (induction deps arbitrary: ps) (auto simp: distinct_set_insert split: option.splits)

lemma distinct_GetChildren: "distinct (GetChildren w this)"
  by (simp add: GetChildren_def distinct_GetChildren_loop)

lemma store_NoOut_iff: "(store fd v = NoOut) = (fd = NoOut)"
  by (cases fd) simp_all

lemma store_store: "store (store fd u) v = store fd v"
  by (cases fd) simp_all

lemma out_kept:
  "(snd (IsReachable w this dt fd rstack) = NoOut) = (fd = NoOut)"
  "(snd (IsReachable_parents w ps dt fd rstack) = NoOut) = (fd = NoOut)"
proof (induction w this dt fd rstack and w ps dt fd rstack
    rule: IsReachable_IsReachable_parents.induct)
  case (1 w this dt failedDependency rstack)
  then show ?case
    by (subst IsReachable.simps)
      (simp add: Let_def store_NoOut_iff split: sum.splits option.splits)
next
  case (2 w dt failedDependency rstack)
  show ?case by simp
next
  case (3 w checkable rest dt failedDependency rstack)
  then show ?case by (simp add: Let_def)
qed

lemma fst_fd_indep:
  "fst (IsReachable w this dt fd rstack) = fst (IsReachable w this dt fd' rstack)"
  "fst (IsReachable_parents w ps dt fd rstack) = fst (IsReachable_parents w ps dt fd' rstack)"
proof (induction w this dt fd rstack and w ps dt fd rstack arbitrary: fd' and fd'
    rule: IsReachable_IsReachable_parents.induct)
  case (1 w this dt failedDependency rstack)
  show ?case
  proof (cases "rstack > l_MaxDependencyRecursionLevel")
    case True
    then show ?thesis by (simp add: IsReachable.simps)
  next
    case False
    from 1[OF False, of fd'] 
    have "fst (IsReachable_parents w (GetParents w this) dt failedDependency rstack) =
          fst (IsReachable_parents w (GetParents w this) dt fd' rstack)" .
    with False show ?thesis
      by (simp add: IsReachable.simps[of w this] Let_def split: sum.splits option.splits)
  qed
next
  case (2 w dt failedDependency rstack)
  show ?case by simp
next
  case (3 w checkable rest dt failedDependency rstack)
  have a: "fst (IsReachable w checkable dt failedDependency (rstack + 1)) =
        fst (IsReachable w checkable dt fd' (rstack + 1))"
    by (rule 3(1))
  show ?case
  proof (cases "fst (IsReachable w checkable dt failedDependency (rstack + 1))")
    case True
    with a have b: "fst (IsReachable w checkable dt fd' (rstack + 1))" by simp
    have "\<not> \<not> fst (IsReachable w checkable dt failedDependency (rstack + 1))"
      using True by simp
    from 3(2)[OF refl this, of "snd (IsReachable w checkable dt fd' (rstack + 1))"]
    show ?thesis using True b by (simp add: Let_def)
  next
    case False
    with a show ?thesis by (simp add: Let_def)
  qed
qed

lemma parents_fst:
  "fst (IsReachable_parents w ps dt fd rstack) =
     (\<forall>p \<in> set ps. fst (IsReachable w p dt NoOut (rstack + 1)))"
proof (induction ps arbitrary: fd)
  case Nil
  show ?case by simp
next
  case (Cons p ps)
  show ?case
    using Cons[of "snd (IsReachable w p dt fd (rstack + 1))"]
      fst_fd_indep(1)[of w p dt fd "rstack + 1" NoOut]
    by (auto simp: Let_def)
qed

lemma true_out:
  "fst (IsReachable w this dt fd rstack) \<Longrightarrow>
     snd (IsReachable w this dt fd rstack) = store fd None"
  "fst (IsReachable_parents w ps dt fd rstack) \<Longrightarrow>
     snd (IsReachable_parents w ps dt fd rstack) = (if ps = [] then fd else store fd None)"
proof (induction w this dt fd rstack and w ps dt fd rstack
    rule: IsReachable_IsReachable_parents.induct)
  case (1 w this dt failedDependency rstack)
  from 1(2) have le: "\<not> l_MaxDependencyRecursionLevel < rstack"
    by (simp add: IsReachable.simps[of w this] split: if_splits)
  from 1(2) le have p: "fst (IsReachable_parents w (GetParents w this) dt failedDependency rstack)"
    by (simp add: IsReachable.simps[of w this] Let_def split: if_splits)
  note ih = 1(1)[OF le p]
  from 1(2) le p show ?case
    by (simp add: IsReachable.simps[of w this] Let_def ih store_store
        split: if_splits sum.splits option.splits)
next
  case (2 w dt failedDependency rstack)
  show ?case by simp
next
  case (3 w checkable rest dt failedDependency rstack)
  from 3(3) have a: "fst (IsReachable w checkable dt failedDependency (rstack + 1))"
    by (simp add: Let_def split: if_splits)
  with 3(3) have b: "fst (IsReachable_parents w rest dt
      (snd (IsReachable w checkable dt failedDependency (rstack + 1))) rstack)"
    by (simp add: Let_def)
  have nn: "\<not> \<not> fst (IsReachable w checkable dt failedDependency (rstack + 1))"
    using a by simp
  from 3(1)[OF a] 3(2)[OF refl nn b] a show ?case
    by (simp add: Let_def store_store)
qed

section \<open>Auxiliary facts: the map of redundancy groups\<close>

lemma key_absent_iff: "(k \<in> set (map fst m)) = (map_of m k \<noteq> None)"
  by (simp add: map_of_eq_None_iff)

lemma distinct_umap_insert:
  "distinct (map fst m) \<Longrightarrow> distinct (map fst (umap_insert k v m))"
  by (simp add: umap_insert_def)

lemma map_of_umap_insert:
  "map_of (umap_insert k v m) g =
     (if g = k \<and> map_of m k = None then Some v else map_of m g)"
  unfolding umap_insert_def key_absent_iff
  by (auto simp add: map_add_def split: option.splits)

lemma map_fst_umap_assign:
  "map fst (map (\<lambda>e. if fst e = k then (k, v) else e) m) = map fst m"
  by (induction m) auto

lemma distinct_umap_assign:
  "distinct (map fst m) \<Longrightarrow> distinct (map fst (umap_assign k v m))"
  unfolding umap_assign_def
  by (simp add: map_fst_umap_assign del: map_map)

lemma map_of_overwrite:
  "map_of (map (\<lambda>e. if fst e = k then (k, v) else e) m) g =
     (if g = k then (case map_of m k of None \<Rightarrow> None | Some u \<Rightarrow> Some v) else map_of m g)"
  by (induction m) auto

lemma map_of_umap_assign:
  "map_of (umap_assign k v m) g = (if g = k then Some v else map_of m g)"
  unfolding umap_assign_def key_absent_iff
  by (auto simp add: map_add_def map_of_overwrite split: option.splits)

lemma deps_loop_Inl:
  "(deps_loop w dt deps m = Inl d) =
     (find (\<lambda>e. \<not> IsAvailable w e dt \<and> GetRedundancyGroup e = []) deps = Some d)"
  by (induction deps arbitrary: m) (auto simp: Let_def)

lemma deps_loop_Inr:
  assumes "distinct (map fst m)" and "deps_loop w dt deps m = Inr m'"
  shows "distinct (map fst m') \<and>
    (\<forall>g. map_of m' g =
       (if \<exists>e \<in> set deps. GetRedundancyGroup e = g \<and> g \<noteq> [] \<and> IsAvailable w e dt
        then Some None
        else case map_of m g of
               Some v \<Rightarrow> Some v
             | None \<Rightarrow>
                 (case find (\<lambda>e. GetRedundancyGroup e = g \<and> g \<noteq> []) deps of
                    None \<Rightarrow> None
                  | Some e \<Rightarrow> Some (Some e))))"
  using assms
proof (induction deps arbitrary: m)
  case Nil
  then show ?case by (auto split: option.splits)
next
  case (Cons dep deps)
  let ?g0 = "GetRedundancyGroup dep"
  show ?case
  proof (cases "IsAvailable w dep dt")
    case True
    show ?thesis
    proof (cases "?g0 = []")
      case True
      with \<open>IsAvailable w dep dt\<close> Cons.prems have "deps_loop w dt deps m = Inr m'"
        by (simp add: Let_def)
      from Cons.IH[OF Cons.prems(1) this] True show ?thesis
        by (auto split: option.splits)
    next
      case False
      with True Cons.prems have "deps_loop w dt deps (umap_assign ?g0 None m) = Inr m'"
        by (simp add: Let_def)
      from Cons.IH[OF distinct_umap_assign[OF Cons.prems(1)] this] True False show ?thesis
        by (auto simp: map_of_umap_assign split: option.splits)
    qed
  next
    case False
    with Cons.prems have ne: "?g0 \<noteq> []" by (auto simp: Let_def split: if_splits)
    with False Cons.prems have "deps_loop w dt deps (umap_insert ?g0 (Some dep) m) = Inr m'"
      by (simp add: Let_def)
    from Cons.IH[OF distinct_umap_insert[OF Cons.prems(1)] this] False ne show ?thesis
      by (auto simp: map_of_umap_insert split: option.splits)
  qed
qed

section \<open>Auxiliary facts: the verdict on the outgoing edges\<close>

lemma deps_loop_start:
  assumes "deps_loop w dt deps [] = Inr m"
  shows "distinct (map fst m)"
    and "map_of m g =
       (if \<exists>e \<in> set deps. GetRedundancyGroup e = g \<and> g \<noteq> [] \<and> IsAvailable w e dt
        then Some None
        else (case find (\<lambda>e. GetRedundancyGroup e = g \<and> g \<noteq> []) deps of
                None \<Rightarrow> None
              | Some e \<Rightarrow> Some (Some e)))"
proof -
  have "distinct (map fst ([] :: violated_map))" by simp
  note r = deps_loop_Inr[OF this assms]
  from r show "distinct (map fst m)" by (rule conjunct1)
  from r have "\<forall>g. map_of m g =
       (if \<exists>e \<in> set deps. GetRedundancyGroup e = g \<and> g \<noteq> [] \<and> IsAvailable w e dt
        then Some None
        else case map_of [] g of
               Some v \<Rightarrow> Some v
             | None \<Rightarrow>
                 (case find (\<lambda>e. GetRedundancyGroup e = g \<and> g \<noteq> []) deps of
                    None \<Rightarrow> None
                  | Some e \<Rightarrow> Some (Some e)))" by (rule conjunct2)
  then have "map_of m g =
       (if \<exists>e \<in> set deps. GetRedundancyGroup e = g \<and> g \<noteq> [] \<and> IsAvailable w e dt
        then Some None
        else case map_of [] g of
               Some v \<Rightarrow> Some v
             | None \<Rightarrow>
                 (case find (\<lambda>e. GetRedundancyGroup e = g \<and> g \<noteq> []) deps of
                    None \<Rightarrow> None
                  | Some e \<Rightarrow> Some (Some e)))" by (rule spec)
  then show "map_of m g =
       (if \<exists>e \<in> set deps. GetRedundancyGroup e = g \<and> g \<noteq> [] \<and> IsAvailable w e dt
        then Some None
        else (case find (\<lambda>e. GetRedundancyGroup e = g \<and> g \<noteq> []) deps of
                None \<Rightarrow> None
              | Some e \<Rightarrow> Some (Some e)))"
    by (simp only: map_of.simps option.case)
qed

lemma find_violator_None:
  assumes it: "set (unordered_iteration w m) = set m"
    and loop: "deps_loop w dt deps [] = Inr m"
  shows "(find_violator w m = None) =
    (\<forall>dep \<in> set deps. GetRedundancyGroup dep \<noteq> [] \<longrightarrow>
       (\<exists>e \<in> set deps. GetRedundancyGroup e = GetRedundancyGroup dep \<and> IsAvailable w e dt))"
proof -
  note d = deps_loop_start(1)[OF loop] and f = deps_loop_start(2)[OF loop]
  have none: "(find_violator w m = None) = (\<forall>kv \<in> set m. snd kv = None)"
    by (auto simp: find_violator_def find_None_iff it)
  show ?thesis
  proof
    assume a: "find_violator w m = None"
    show "\<forall>dep \<in> set deps. GetRedundancyGroup dep \<noteq> [] \<longrightarrow>
       (\<exists>e \<in> set deps. GetRedundancyGroup e = GetRedundancyGroup dep \<and> IsAvailable w e dt)"
    proof (intro ballI impI, rule ccontr)
      fix dep
      assume dep: "dep \<in> set deps" "GetRedundancyGroup dep \<noteq> []"
        and no: "\<not> (\<exists>e \<in> set deps. GetRedundancyGroup e = GetRedundancyGroup dep \<and>
                        IsAvailable w e dt)"
      let ?g = "GetRedundancyGroup dep"
      from dep have "find (\<lambda>e. GetRedundancyGroup e = ?g \<and> ?g \<noteq> []) deps \<noteq> None"
        by (auto simp: find_None_iff)
      then obtain e where "find (\<lambda>e. GetRedundancyGroup e = ?g \<and> ?g \<noteq> []) deps = Some e"
        by auto
      with f[of ?g] no have "map_of m ?g = Some (Some e)" by auto
      then have "(?g, Some e) \<in> set m" by (rule map_of_SomeD)
      with a none show False by auto
    qed
  next
    assume a: "\<forall>dep \<in> set deps. GetRedundancyGroup dep \<noteq> [] \<longrightarrow>
       (\<exists>e \<in> set deps. GetRedundancyGroup e = GetRedundancyGroup dep \<and> IsAvailable w e dt)"
    have "snd kv = None" if kv: "kv \<in> set m" for kv
    proof -
      from kv d have m: "map_of m (fst kv) = Some (snd kv)" by simp
      show ?thesis
      proof (cases "\<exists>e \<in> set deps. GetRedundancyGroup e = fst kv \<and> fst kv \<noteq> [] \<and>
                        IsAvailable w e dt")
        case True
        with f[of "fst kv"] m show ?thesis by simp
      next
        case False
        with f[of "fst kv"] m obtain e where
          e: "find (\<lambda>e. GetRedundancyGroup e = fst kv \<and> fst kv \<noteq> []) deps = Some e"
          by (auto split: option.splits)
        then have "e \<in> set deps" "GetRedundancyGroup e = fst kv" "fst kv \<noteq> []"
          by (auto simp: find_Some_iff)
        with a False show ?thesis by auto
      qed
    qed
    with none show "find_violator w m = None" by simp
  qed
qed

lemma find_violator_Some:
  assumes it: "set (unordered_iteration w m) = set m"
    and loop: "deps_loop w dt deps [] = Inr m"
    and v: "find_violator w m = Some kv"
  shows "\<exists>d. snd kv = Some d \<and> d \<in> set deps \<and> GetRedundancyGroup d = fst kv \<and>
    fst kv \<noteq> [] \<and>
    (\<forall>e \<in> set deps. GetRedundancyGroup e = fst kv \<longrightarrow> \<not> IsAvailable w e dt)"
proof -
  note d = deps_loop_start(1)[OF loop] and f = deps_loop_start(2)[OF loop]
  from v have "kv \<in> set (unordered_iteration w m)" and nn: "snd kv \<noteq> None"
    by (auto simp: find_violator_def find_Some_iff)
  with it have "kv \<in> set m" by simp
  with d have m: "map_of m (fst kv) = Some (snd kv)" by simp
  from m nn f[of "fst kv"]
  have no: "\<not> (\<exists>e \<in> set deps. GetRedundancyGroup e = fst kv \<and> fst kv \<noteq> [] \<and>
                   IsAvailable w e dt)"
    by (auto split: if_splits)
  with m f[of "fst kv"] obtain e where
    e: "find (\<lambda>e. GetRedundancyGroup e = fst kv \<and> fst kv \<noteq> []) deps = Some e"
    and s: "snd kv = Some e"
    by (auto split: option.splits)
  from e have "e \<in> set deps" "GetRedundancyGroup e = fst kv" "fst kv \<noteq> []"
    by (auto simp: find_Some_iff)
  with no s show ?thesis by auto
qed

lemma deps_loop_Inr_iff:
  "(\<exists>m. deps_loop w dt deps [] = Inr m) =
     (\<forall>e \<in> set deps. GetRedundancyGroup e = [] \<longrightarrow> IsAvailable w e dt)"
proof -
  have "(\<exists>m. deps_loop w dt deps [] = Inr m) = (\<not> (\<exists>d. deps_loop w dt deps [] = Inl d))"
    by (cases "deps_loop w dt deps []") auto
  also have "\<dots> = (find (\<lambda>e. \<not> IsAvailable w e dt \<and> GetRedundancyGroup e = []) deps = None)"
    by (simp add: deps_loop_Inl)
  also have "\<dots> = (\<forall>e \<in> set deps. GetRedundancyGroup e = [] \<longrightarrow> IsAvailable w e dt)"
    by (auto simp: find_None_iff)
  finally show ?thesis .
qed

lemma IsReachable_direct:
  assumes "rstack \<le> l_MaxDependencyRecursionLevel"
    and "fst (IsReachable_parents w (GetParents w this) dt fd rstack)"
    and "\<not> host_gate w this dt"
  shows "IsReachable w this dt fd rstack =
    (case deps_loop w dt (GetDependencies w this) [] of
       Inl dep \<Rightarrow> (False, store fd (Some dep))
     | Inr violated \<Rightarrow>
         (case find_violator w violated of
            Some violator \<Rightarrow> (False, store fd (snd violator))
          | None \<Rightarrow> (True, store fd None)))"
  using assms true_out(2)[OF assms(2)]
  by (simp add: IsReachable.simps[of w this] Let_def store_store
      split: sum.splits option.splits)

lemma IsReachable_fst:
  assumes it: "\<And>m. set (unordered_iteration w m) = set m"
  shows "fst (IsReachable w this dt fd rstack) =
    (rstack \<le> l_MaxDependencyRecursionLevel \<and>
     (\<forall>p \<in> set (GetParents w this). fst (IsReachable w p dt NoOut (rstack + 1))) \<and>
     \<not> host_gate w this dt \<and>
     (\<forall>e \<in> set (GetDependencies w this). GetRedundancyGroup e = [] \<longrightarrow> IsAvailable w e dt) \<and>
     (\<forall>dep \<in> set (GetDependencies w this). GetRedundancyGroup dep \<noteq> [] \<longrightarrow>
        (\<exists>e \<in> set (GetDependencies w this).
           GetRedundancyGroup e = GetRedundancyGroup dep \<and> IsAvailable w e dt)))"
proof (cases "rstack \<le> l_MaxDependencyRecursionLevel \<and>
     fst (IsReachable_parents w (GetParents w this) dt fd rstack) \<and> \<not> host_gate w this dt")
  case False
  then show ?thesis
    by (auto simp: IsReachable.simps[of w this] Let_def parents_fst)
next
  case True
  then have le: "rstack \<le> l_MaxDependencyRecursionLevel"
    and p: "fst (IsReachable_parents w (GetParents w this) dt fd rstack)"
    and h: "\<not> host_gate w this dt" by simp_all
  note dir = IsReachable_direct[OF le p h]
  show ?thesis
  proof (cases "deps_loop w dt (GetDependencies w this) []")
    case (Inl d)
    then have "\<not> (\<forall>e \<in> set (GetDependencies w this).
        GetRedundancyGroup e = [] \<longrightarrow> IsAvailable w e dt)"
      using deps_loop_Inr_iff[of w dt "GetDependencies w this"] by auto
    with Inl dir show ?thesis by auto
  next
    case (Inr m)
    then have a: "\<forall>e \<in> set (GetDependencies w this).
        GetRedundancyGroup e = [] \<longrightarrow> IsAvailable w e dt"
      using deps_loop_Inr_iff[of w dt "GetDependencies w this"] by auto
    from dir Inr have "fst (IsReachable w this dt fd rstack) = (find_violator w m = None)"
      by (simp split: option.splits)
    with find_violator_None[OF it Inr] a le p h show ?thesis
      by (simp add: parents_fst)
  qed
qed

section \<open>Success, and the parent and child sets\<close>

lemmas eval_defs =
  IsReachable.simps GetParents_def GetChildren_def GetDependencies_def
  GetReverseDependencies_def host_gate_def find_violator_def umap_insert_def umap_assign_def
  l_MaxDependencyRecursionLevel_def set_insert_def set_insert_range_def mk_dep_def Let_def

text \<open>
  Claim C9. Whenever \<^verbatim>\<open>IsReachable\<close> returns true and the caller passed a pointer to an
  output variable, that variable is null after the call, whatever it held before.
\<close>

theorem success_clears_output:
  "IsReachable w this dt (Out v) rstack = (True, out) \<Longrightarrow> out = Out None"
  using true_out(1)[of w this dt "Out v" rstack] by simp

theorem success_clears_output_witness:
  "IsReachable plain_world 0 DependencyState (Out (Some (mk_dep ''stale'' 5 6 []))) 0 =
     (True, Out None)"
proof -
  have "fst (IsReachable plain_world 0 DependencyState (Out (Some (mk_dep ''stale'' 5 6 []))) 0)"
    by (simp add: eval_defs plain_world_def)
  then show ?thesis
    using success_clears_output[of plain_world 0 DependencyState "Some (mk_dep ''stale'' 5 6 [])" 0
        "snd (IsReachable plain_world 0 DependencyState (Out (Some (mk_dep ''stale'' 5 6 []))) 0)"]
    by (simp add: prod_eq_iff)
qed

text \<open>
  Claim C7. For every checkable, neither the set returned by \<^verbatim>\<open>GetParents\<close> nor the set
  returned by \<^verbatim>\<open>GetChildren\<close> contains the checkable itself, whatever edges its two edge
  sets hold; an edge from the checkable to itself is skipped.
\<close>

theorem no_self_in_parents_children:
  "this \<notin> set (GetParents w this) \<and> this \<notin> set (GetChildren w this)"
  by (simp add: GetParents_def GetChildren_def set_GetParents_loop set_GetChildren_loop)

theorem no_self_in_parents_children_witness:
  "GetParents self_edge_world 0 = [1] \<and> GetChildren self_edge_world 0 = [2] \<and>
   0 \<notin> set (GetParents self_edge_world 0) \<and> 0 \<notin> set (GetChildren self_edge_world 0)"
  using no_self_in_parents_children[of 0 self_edge_world]
  by (simp add: eval_defs self_edge_world_def plain_world_def)

section \<open>The host gate, edges without redundancy group, unreachable parents\<close>

text \<open>
  Claim C3. Let a service have a host whose state is not up and whose state type is hard,
  and let the dependency type be \<^verbatim>\<open>DependencyState\<close> or \<^verbatim>\<open>DependencyNotification\<close>. Then
  \<^verbatim>\<open>IsReachable\<close> returns false for the service, in every configuration of edges and at
  every depth. When moreover all parents of the service are reachable (and the call is within
  the depth ceiling, as a query that starts at depth 0 is), the call returns through the host
  gate and the violating-edge output is null.
\<close>

theorem host_down_unreachable:
  assumes "is_service w this"
    and "GetHost w this = Some host"
    and "GetState w host \<noteq> HostUp"
    and "GetStateType w host = StateTypeHard"
    and "dt = DependencyState \<or> dt = DependencyNotification"
  shows "fst (IsReachable w this dt fd rstack) = False \<and>
    (rstack \<le> l_MaxDependencyRecursionLevel \<and>
     (\<forall>p \<in> set (GetParents w this). fst (IsReachable w p dt NoOut (rstack + 1))) \<longrightarrow>
       IsReachable w this dt (Out v) rstack = (False, Out None))"
proof -
  from assms have gate: "host_gate w this dt" by (simp add: host_gate_def)
  then have "fst (IsReachable w this dt fd rstack) = False"
    by (simp add: IsReachable.simps[of w this] Let_def)
  moreover have "IsReachable w this dt (Out v) rstack = (False, Out None)"
    if le: "rstack \<le> l_MaxDependencyRecursionLevel"
      and ps: "\<forall>p \<in> set (GetParents w this). fst (IsReachable w p dt NoOut (rstack + 1))"
  proof -
    from ps have p: "fst (IsReachable_parents w (GetParents w this) dt (Out v) rstack)"
      by (simp add: parents_fst)
    from true_out(2)[OF p] have "store (snd (IsReachable_parents w (GetParents w this) dt (Out v) rstack)) None = Out None"
      by (simp split: if_splits)
    with le p gate show ?thesis
      by (simp add: IsReachable.simps[of w this] Let_def)
  qed
  ultimately show ?thesis by blast
qed

theorem host_down_unreachable_witness:
  "is_service service_world 0 \<and> GetHost service_world 0 = Some 1 \<and>
   GetState service_world 1 \<noteq> HostUp \<and> GetStateType service_world 1 = StateTypeHard \<and>
   GetParents service_world 0 = [2] \<and>
   fst (IsReachable service_world 2 DependencyState NoOut 1) \<and>
   IsReachable service_world 0 DependencyState (Out (Some (mk_dep ''stale'' 5 6 []))) 0 =
     (False, Out None)"
proof -
  have a: "is_service service_world 0" "GetHost service_world 0 = Some 1"
    "GetState service_world 1 \<noteq> HostUp" "GetStateType service_world 1 = StateTypeHard"
    by (simp_all add: service_world_def plain_world_def)
  have b: "GetParents service_world 0 = [2]"
    by (simp add: eval_defs service_world_def plain_world_def)
  have c: "fst (IsReachable service_world 2 DependencyState NoOut 1)"
    by (simp add: eval_defs service_world_def plain_world_def)
  from host_down_unreachable[OF a, of DependencyState NoOut 0 "Some (mk_dep ''stale'' 5 6 [])"]
    a b c show ?thesis
    by (simp add: l_MaxDependencyRecursionLevel_def)
qed

text \<open>
  Claim C2. Let all parents of a checkable be reachable and the host gate not block it (in
  a call within the depth ceiling). If some outgoing edge with an empty redundancy group is
  not available for the dependency type, \<^verbatim>\<open>IsReachable\<close> returns false, and the
  violating-edge output is such an edge: the first edge in the iteration over the outgoing
  edges that has an empty redundancy group and is not available.
\<close>

theorem unavailable_edge_unreachable:
  assumes "rstack \<le> l_MaxDependencyRecursionLevel"
    and "\<forall>p \<in> set (GetParents w this). fst (IsReachable w p dt NoOut (rstack + 1))"
    and "\<not> host_gate w this dt"
    and "\<exists>dep \<in> set (GetDependencies w this).
           GetRedundancyGroup dep = [] \<and> \<not> IsAvailable w dep dt"
  shows "\<exists>dep \<in> set (GetDependencies w this).
           GetRedundancyGroup dep = [] \<and> \<not> IsAvailable w dep dt \<and>
           find (\<lambda>e. \<not> IsAvailable w e dt \<and> GetRedundancyGroup e = [])
             (GetDependencies w this) = Some dep \<and>
           IsReachable w this dt (Out v) rstack = (False, Out (Some dep)) \<and>
           fst (IsReachable w this dt NoOut rstack) = False"
proof -
  from assms(4)
  have "find (\<lambda>e. \<not> IsAvailable w e dt \<and> GetRedundancyGroup e = [])
          (GetDependencies w this) \<noteq> None"
    by (auto simp: find_None_iff)
  then obtain dep where
    f: "find (\<lambda>e. \<not> IsAvailable w e dt \<and> GetRedundancyGroup e = [])
          (GetDependencies w this) = Some dep"
    by auto
  then have mem: "dep \<in> set (GetDependencies w this)"
    and unav: "GetRedundancyGroup dep = []" "\<not> IsAvailable w dep dt"
    by (auto simp: find_Some_iff)
  from f have l: "deps_loop w dt (GetDependencies w this) [] = Inl dep"
    by (simp add: deps_loop_Inl)
  have p: "fst (IsReachable_parents w (GetParents w this) dt fd rstack)" for fd
    using assms(2) by (simp add: parents_fst)
  have "IsReachable w this dt fd rstack = (False, store fd (Some dep))" for fd
    using IsReachable_direct[OF assms(1) p assms(3)] l by simp
  from this[of "Out v"] this[of NoOut] mem unav f show ?thesis by auto
qed

theorem unavailable_edge_unreachable_witness:
  "GetParents failed_edge_world 0 = [1, 2, 4] \<and>
   fst (IsReachable failed_edge_world 1 DependencyState NoOut 1) \<and>
   fst (IsReachable failed_edge_world 2 DependencyState NoOut 1) \<and>
   fst (IsReachable failed_edge_world 4 DependencyState NoOut 1) \<and>
   \<not> host_gate failed_edge_world 0 DependencyState \<and>
   \<not> IsAvailable failed_edge_world (mk_dep ''A-B'' 0 1 []) DependencyState \<and>
   IsReachable failed_edge_world 0 DependencyState (Out None) 0 =
     (False, Out (Some (mk_dep ''A-B'' 0 1 [])))"
proof -
  have a: "GetParents failed_edge_world 0 = [1, 2, 4]"
    by (simp add: eval_defs failed_edge_world_def plain_world_def)
  have b: "fst (IsReachable failed_edge_world 1 DependencyState NoOut 1)"
    "fst (IsReachable failed_edge_world 2 DependencyState NoOut 1)"
    "fst (IsReachable failed_edge_world 4 DependencyState NoOut 1)"
    by (simp_all add: eval_defs failed_edge_world_def plain_world_def)
  have c: "\<not> host_gate failed_edge_world 0 DependencyState"
    by (simp add: host_gate_def failed_edge_world_def plain_world_def)
  have d: "GetDependencies failed_edge_world 0 =
      [mk_dep ''A-C'' 0 2 ''g1'', mk_dep ''A-B'' 0 1 [], mk_dep ''A-E'' 0 4 []]"
    by (simp add: GetDependencies_def failed_edge_world_def plain_world_def)
  have e: "\<not> IsAvailable failed_edge_world (mk_dep ''A-B'' 0 1 []) DependencyState"
    "IsAvailable failed_edge_world (mk_dep ''A-C'' 0 2 ''g1'') DependencyState"
    by (simp_all add: failed_edge_world_def plain_world_def mk_dep_def)
  have h1: "0 \<le> l_MaxDependencyRecursionLevel" by (simp add: l_MaxDependencyRecursionLevel_def)
  have h2: "\<forall>p \<in> set (GetParents failed_edge_world 0).
      fst (IsReachable failed_edge_world p DependencyState NoOut (0 + 1))"
    using a b by simp
  have h4: "\<exists>dep \<in> set (GetDependencies failed_edge_world 0).
      GetRedundancyGroup dep = [] \<and> \<not> IsAvailable failed_edge_world dep DependencyState"
    using d e by (auto simp: mk_dep_def)
  from unavailable_edge_unreachable[OF h1 h2 c h4, of None] a b c d e show ?thesis
    by (auto simp: mk_dep_def)
qed

lemma parents_first_failure:
  assumes "\<forall>q \<in> set ps1. fst (IsReachable w q dt NoOut (rstack + 1))"
    and "\<not> fst (IsReachable w p dt NoOut (rstack + 1))"
  shows "IsReachable_parents w (ps1 @ p # ps2) dt fd rstack =
    (False, snd (IsReachable w p dt (if ps1 = [] then fd else store fd None) (rstack + 1)))"
  using assms(1)
proof (induction ps1 arbitrary: fd)
  case Nil
  from assms(2) have "\<not> fst (IsReachable w p dt fd (rstack + 1))"
    using fst_fd_indep(1)[of w p dt fd "rstack + 1" NoOut] by simp
  then show ?case by (simp add: Let_def)
next
  case (Cons q qs)
  from Cons.prems have q: "fst (IsReachable w q dt fd (rstack + 1))"
    using fst_fd_indep(1)[of w q dt fd "rstack + 1" NoOut] by simp
  from true_out(1)[OF q] have s: "snd (IsReachable w q dt fd (rstack + 1)) = store fd None" .
  from Cons.prems have "\<forall>q \<in> set qs. fst (IsReachable w q dt NoOut (rstack + 1))" by simp
  from Cons.IH[OF this, of "store fd None"] q s show ?case
    by (simp add: Let_def store_store)
qed

text \<open>
  Claim C4, as amended. When \<^verbatim>\<open>IsReachable\<close> returns false because the recursive call on
  a direct parent returned false, the top-level call writes nothing of its own to the
  violating-edge output: the output is what the recursive call on the first unreachable
  parent left there. That call started from the caller's variable when it was the first
  recursive call, and from null when reachable parents had been visited before it. So the
  output holds the violating edge that the parent's own evaluation identified, and it is
  null only when that evaluation left null.
\<close>

theorem parent_failure_passes_output:
  assumes "rstack \<le> l_MaxDependencyRecursionLevel"
    and "GetParents w this = ps1 @ p # ps2"
    and "\<forall>q \<in> set ps1. fst (IsReachable w q dt NoOut (rstack + 1))"
    and "\<not> fst (IsReachable w p dt NoOut (rstack + 1))"
  shows "IsReachable w this dt fd rstack =
    (False, snd (IsReachable w p dt (if ps1 = [] then fd else store fd None) (rstack + 1)))"
  using assms(1) parents_first_failure[OF assms(3,4), of ps2 fd]
  by (simp add: IsReachable.simps[of w this] assms(2) Let_def)

theorem parent_failure_passes_output_witness:
  "GetParents grandparent_world 0 = [] @ 1 # [] \<and>
   \<not> fst (IsReachable grandparent_world 1 DependencyState NoOut (0 + 1)) \<and>
   snd (IsReachable grandparent_world 1 DependencyState (Out None) (0 + 1)) =
     Out (Some (mk_dep ''B-C'' 1 2 [])) \<and>
   IsReachable grandparent_world 0 DependencyState (Out None) 0 =
     (False, Out (Some (mk_dep ''B-C'' 1 2 [])))"
proof -
  have a: "GetParents grandparent_world 0 = [] @ 1 # []"
    by (simp add: eval_defs grandparent_world_def plain_world_def)
  have b: "\<not> fst (IsReachable grandparent_world 1 DependencyState NoOut (0 + 1))"
    by (simp add: eval_defs grandparent_world_def plain_world_def)
  have c: "snd (IsReachable grandparent_world 1 DependencyState (Out None) (0 + 1)) =
     Out (Some (mk_dep ''B-C'' 1 2 []))"
    by (simp add: eval_defs grandparent_world_def plain_world_def)
  have h1: "0 \<le> l_MaxDependencyRecursionLevel" by (simp add: l_MaxDependencyRecursionLevel_def)
  have h3: "\<forall>q \<in> set []. fst (IsReachable grandparent_world q DependencyState NoOut (0 + 1))"
    by simp
  from parent_failure_passes_output[OF h1 a h3 b, of "Out None"] a b c show ?thesis
    by simp
qed

text \<open>
  Claim C4 as it is written fails. Checkable 0 depends on 1 through an available edge and
  is not blocked by the host gate; its parent 1 is unreachable because its edge to 2, which
  has no redundancy group, is not available. The query for 0 returns false because the
  recursive call on 1 returned false, and the violating-edge output is the edge from 1 to 2,
  not null.
\<close>

theorem parent_failure_output_not_null:
  "GetParents grandparent_world 0 = [1] \<and>
   fst (IsReachable grandparent_world 1 DependencyState (Out None) 1) = False \<and>
   \<not> host_gate grandparent_world 0 DependencyState \<and>
   GetDependencies grandparent_world 0 = [mk_dep ''A-B'' 0 1 []] \<and>
   IsAvailable grandparent_world (mk_dep ''A-B'' 0 1 []) DependencyState \<and>
   IsReachable grandparent_world 0 DependencyState (Out None) 0 =
     (False, Out (Some (mk_dep ''B-C'' 1 2 []))) \<and>
   Out (Some (mk_dep ''B-C'' 1 2 [])) \<noteq> Out None"
  by (simp add: eval_defs grandparent_world_def plain_world_def)

section \<open>Redundancy groups\<close>

lemma set_GetParents:
  "set (GetParents w this) =
     {p. \<exists>dep \<in> set (m_Dependencies w this). GetParent dep = Some p \<and> p \<noteq> this}"
  by (simp add: GetParents_def GetDependencies_def set_GetParents_loop)

lemma fst_reorder:
  assumes it: "\<And>m. set (unordered_iteration w m) = set m"
    and it': "\<And>m. set (unordered_iteration w' m) = set m"
    and same: "is_service w' = is_service w" "GetHost w' = GetHost w"
      "GetState w' = GetState w" "GetStateType w' = GetStateType w"
      "IsAvailable w' = IsAvailable w"
    and edges: "\<And>x. set (m_Dependencies w' x) = set (m_Dependencies w x)"
  shows "fst (IsReachable w' this dt fd' rstack) = fst (IsReachable w this dt fd rstack)"
proof (induction "nat (l_MaxDependencyRecursionLevel + 1 - rstack)"
    arbitrary: this rstack fd fd' rule: less_induct)
  case less
  have ps: "set (GetParents w' this) = set (GetParents w this)"
    by (simp add: set_GetParents edges)
  have ds: "set (GetDependencies w' this) = set (GetDependencies w this)"
    by (simp add: GetDependencies_def edges)
  have hg: "host_gate w' this dt = host_gate w this dt"
    by (simp add: host_gate_def same cong: option.case_cong)
  show ?case
  proof (cases "rstack \<le> l_MaxDependencyRecursionLevel")
    case False
    then show ?thesis
      by (simp add: IsReachable_fst[OF it, of this dt fd rstack]
          IsReachable_fst[OF it', of this dt fd' rstack])
  next
    case True
    then have "nat (l_MaxDependencyRecursionLevel + 1 - (rstack + 1)) <
        nat (l_MaxDependencyRecursionLevel + 1 - rstack)" by simp
    from less[OF this]
    have ih: "fst (IsReachable w' p dt NoOut (rstack + 1)) =
        fst (IsReachable w p dt NoOut (rstack + 1))" for p .
    show ?thesis
      unfolding IsReachable_fst[OF it, of this dt fd rstack]
        IsReachable_fst[OF it', of this dt fd' rstack]
      by (simp only: ps ds hg ih same)
  qed
qed

text \<open>
  Claim C1. Let all parents of a checkable be reachable, the host gate not block it, and all
  its outgoing edges with an empty redundancy group be available (in a call within the depth
  ceiling; the iteration of the unordered map enumerates its entries). Then
  \<^item> \<^verbatim>\<open>IsReachable\<close> returns true if and only if every redundancy group that occurs among
    the outgoing edges contains an available edge;
  \<^item> when some group has all its edges unavailable, \<^verbatim>\<open>IsReachable\<close> returns false and the
    violating-edge output is an unavailable edge of a group all of whose edges are
    unavailable;
  \<^item> the verdict does not depend on the order of iteration: it is the same when the edge
    sets of the checkables are iterated in any other order, and when the unordered map is.
\<close>

theorem redundancy_group_verdict:
  assumes "\<forall>m. set (unordered_iteration w m) = set m"
    and "rstack \<le> l_MaxDependencyRecursionLevel"
    and "\<forall>p \<in> set (GetParents w this). fst (IsReachable w p dt NoOut (rstack + 1))"
    and "\<not> host_gate w this dt"
    and "\<forall>e \<in> set (GetDependencies w this). GetRedundancyGroup e = [] \<longrightarrow> IsAvailable w e dt"
  shows
    "(fst (IsReachable w this dt fd rstack) =
        (\<forall>dep \<in> set (GetDependencies w this). GetRedundancyGroup dep \<noteq> [] \<longrightarrow>
           (\<exists>e \<in> set (GetDependencies w this).
              GetRedundancyGroup e = GetRedundancyGroup dep \<and> IsAvailable w e dt))) \<and>
     ((\<exists>dep \<in> set (GetDependencies w this). GetRedundancyGroup dep \<noteq> [] \<and>
         (\<forall>e \<in> set (GetDependencies w this).
            GetRedundancyGroup e = GetRedundancyGroup dep \<longrightarrow> \<not> IsAvailable w e dt)) \<longrightarrow>
      (\<exists>d \<in> set (GetDependencies w this).
         IsReachable w this dt (Out v) rstack = (False, Out (Some d)) \<and>
         fst (IsReachable w this dt NoOut rstack) = False \<and>
         GetRedundancyGroup d \<noteq> [] \<and> \<not> IsAvailable w d dt \<and>
         (\<forall>e \<in> set (GetDependencies w this).
            GetRedundancyGroup e = GetRedundancyGroup d \<longrightarrow> \<not> IsAvailable w e dt))) \<and>
     (\<forall>D it. (\<forall>x. set (D x) = set (m_Dependencies w x)) \<and> (\<forall>m. set (it m) = set m) \<longrightarrow>
        fst (IsReachable (w\<lparr>m_Dependencies := D, unordered_iteration := it\<rparr>) this dt fd rstack) =
        fst (IsReachable w this dt fd rstack))"
proof (intro conjI)
  let ?deps = "GetDependencies w this"
  from assms(1) have it: "set (unordered_iteration w m) = set m" for m by simp
  show iff: "fst (IsReachable w this dt fd rstack) =
        (\<forall>dep \<in> set ?deps. GetRedundancyGroup dep \<noteq> [] \<longrightarrow>
           (\<exists>e \<in> set ?deps. GetRedundancyGroup e = GetRedundancyGroup dep \<and> IsAvailable w e dt))"
    for fd
    unfolding IsReachable_fst[OF it, of this dt fd rstack] using assms(2-5) by blast
  show "(\<exists>dep \<in> set ?deps. GetRedundancyGroup dep \<noteq> [] \<and>
         (\<forall>e \<in> set ?deps. GetRedundancyGroup e = GetRedundancyGroup dep \<longrightarrow>
            \<not> IsAvailable w e dt)) \<longrightarrow>
      (\<exists>d \<in> set ?deps.
         IsReachable w this dt (Out v) rstack = (False, Out (Some d)) \<and>
         fst (IsReachable w this dt NoOut rstack) = False \<and>
         GetRedundancyGroup d \<noteq> [] \<and> \<not> IsAvailable w d dt \<and>
         (\<forall>e \<in> set ?deps. GetRedundancyGroup e = GetRedundancyGroup d \<longrightarrow>
            \<not> IsAvailable w e dt))"
  proof
    assume bad: "\<exists>dep \<in> set ?deps. GetRedundancyGroup dep \<noteq> [] \<and>
         (\<forall>e \<in> set ?deps. GetRedundancyGroup e = GetRedundancyGroup dep \<longrightarrow>
            \<not> IsAvailable w e dt)"
    with iff have no: "\<not> fst (IsReachable w this dt fd rstack)" for fd by blast
    from assms(5) obtain m where m: "deps_loop w dt ?deps [] = Inr m"
      using deps_loop_Inr_iff[of w dt ?deps] by blast
    have p: "fst (IsReachable_parents w (GetParents w this) dt fd rstack)" for fd
      using assms(3) by (simp add: parents_fst)
    note dir = IsReachable_direct[OF assms(2) p assms(4), unfolded m sum.case]
    from no[of "Out v"] dir[of "Out v"] obtain kv where kv: "find_violator w m = Some kv"
      by (cases "find_violator w m") auto
    from find_violator_Some[OF it m kv] obtain d where
      d: "snd kv = Some d" "d \<in> set ?deps" "GetRedundancyGroup d = fst kv" "fst kv \<noteq> []"
        "\<forall>e \<in> set ?deps. GetRedundancyGroup e = fst kv \<longrightarrow> \<not> IsAvailable w e dt"
      by blast
    from dir[of "Out v"] kv d(1)
    have "IsReachable w this dt (Out v) rstack = (False, Out (Some d))" by simp
    with d no[of NoOut] show "\<exists>d \<in> set ?deps.
         IsReachable w this dt (Out v) rstack = (False, Out (Some d)) \<and>
         fst (IsReachable w this dt NoOut rstack) = False \<and>
         GetRedundancyGroup d \<noteq> [] \<and> \<not> IsAvailable w d dt \<and>
         (\<forall>e \<in> set ?deps. GetRedundancyGroup e = GetRedundancyGroup d \<longrightarrow>
            \<not> IsAvailable w e dt)"
      by auto
  qed
  show "\<forall>D it. (\<forall>x. set (D x) = set (m_Dependencies w x)) \<and> (\<forall>m. set (it m) = set m) \<longrightarrow>
        fst (IsReachable (w\<lparr>m_Dependencies := D, unordered_iteration := it\<rparr>) this dt fd rstack) =
        fst (IsReachable w this dt fd rstack)"
  proof (intro allI impI)
    fix D :: "cptr \<Rightarrow> dependency list" and it' :: "violated_map \<Rightarrow> violated_map"
    assume a: "(\<forall>x. set (D x) = set (m_Dependencies w x)) \<and> (\<forall>m. set (it' m) = set m)"
    show "fst (IsReachable (w\<lparr>m_Dependencies := D, unordered_iteration := it'\<rparr>) this dt fd rstack) =
        fst (IsReachable w this dt fd rstack)"
      by (rule fst_reorder[OF it]) (use a in simp_all)
  qed
qed

theorem redundancy_group_verdict_witness:
  "GetParents failed_group_world 0 = [1, 2, 3] \<and>
   fst (IsReachable failed_group_world 1 DependencyState NoOut 1) \<and>
   fst (IsReachable failed_group_world 2 DependencyState NoOut 1) \<and>
   fst (IsReachable failed_group_world 3 DependencyState NoOut 1) \<and>
   \<not> host_gate failed_group_world 0 DependencyState \<and>
   IsAvailable failed_group_world (mk_dep ''A-B'' 0 1 []) DependencyState \<and>
   \<not> IsAvailable failed_group_world (mk_dep ''A-C'' 0 2 ''g1'') DependencyState \<and>
   \<not> IsAvailable failed_group_world (mk_dep ''A-D'' 0 3 ''g1'') DependencyState \<and>
   IsReachable failed_group_world 0 DependencyState (Out None) 0 =
     (False, Out (Some (mk_dep ''A-C'' 0 2 ''g1''))) \<and>
   fst (IsReachable
          (failed_group_world
             \<lparr>m_Dependencies := (\<lambda>c. rev (m_Dependencies failed_group_world c)),
              unordered_iteration := rev\<rparr>) 0 DependencyState (Out None) 0) = False \<and>
   IsAvailable redundant_world (mk_dep ''A-D'' 0 3 ''g1'') DependencyState \<and>
   IsReachable redundant_world 0 DependencyState (Out (Some (mk_dep ''stale'' 5 6 []))) 0 =
     (True, Out None)"
proof -
  note w = failed_group_world_def redundant_world_def plain_world_def
  have d: "GetDependencies failed_group_world 0 =
      [mk_dep ''A-B'' 0 1 [], mk_dep ''A-C'' 0 2 ''g1'', mk_dep ''A-D'' 0 3 ''g1'']"
    by (simp add: GetDependencies_def w)
  have a: "GetParents failed_group_world 0 = [1, 2, 3]"
    by (simp add: eval_defs w)
  have b: "fst (IsReachable failed_group_world 1 DependencyState NoOut 1)"
    "fst (IsReachable failed_group_world 2 DependencyState NoOut 1)"
    "fst (IsReachable failed_group_world 3 DependencyState NoOut 1)"
    by (simp_all add: eval_defs w)
  have c: "\<not> host_gate failed_group_world 0 DependencyState"
    by (simp add: host_gate_def w)
  have e: "IsAvailable failed_group_world (mk_dep ''A-B'' 0 1 []) DependencyState"
    "\<not> IsAvailable failed_group_world (mk_dep ''A-C'' 0 2 ''g1'') DependencyState"
    "\<not> IsAvailable failed_group_world (mk_dep ''A-D'' 0 3 ''g1'') DependencyState"
    "IsAvailable redundant_world (mk_dep ''A-D'' 0 3 ''g1'') DependencyState"
    by (simp_all add: w mk_dep_def)
  have h1: "\<forall>m. set (unordered_iteration failed_group_world m) = set m"
    by (simp add: w)
  have h2: "0 \<le> l_MaxDependencyRecursionLevel"
    by (simp add: l_MaxDependencyRecursionLevel_def)
  have h3: "\<forall>p \<in> set (GetParents failed_group_world 0).
      fst (IsReachable failed_group_world p DependencyState NoOut (0 + 1))"
    using a b by simp
  have h5: "\<forall>e \<in> set (GetDependencies failed_group_world 0).
      GetRedundancyGroup e = [] \<longrightarrow> IsAvailable failed_group_world e DependencyState"
    using d e by (simp add: mk_dep_def)
  note t = redundancy_group_verdict[OF h1 h2 h3 c h5, of "Out None" None]
  have r1: "IsReachable failed_group_world 0 DependencyState (Out None) 0 =
     (False, Out (Some (mk_dep ''A-C'' 0 2 ''g1'')))"
    by (simp add: eval_defs w)
  have r2: "fst (IsReachable
          (failed_group_world
             \<lparr>m_Dependencies := (\<lambda>c. rev (m_Dependencies failed_group_world c)),
              unordered_iteration := rev\<rparr>) 0 DependencyState (Out None) 0) = False"
    using t r1 by simp
  have r3: "IsReachable redundant_world 0 DependencyState
      (Out (Some (mk_dep ''stale'' 5 6 []))) 0 = (True, Out None)"
    by (simp add: eval_defs w)
  from a b c e r1 r2 r3 show ?thesis by simp
qed

section \<open>Linear chains and the depth ceiling\<close>

lemma linear_chain_step:
  assumes "linear_chain w dt (c # p # cs)"
  shows "GetParents w c = [p]"
    and "\<exists>dep. GetDependencies w c = [dep] \<and> IsAvailable w dep dt"
    and "linear_chain w dt (p # cs)"
  using assms
  by (auto simp: GetParents_def set_insert_def split: list.splits)

lemma linear_chain_too_deep:
  "linear_chain w dt (c # cs) \<Longrightarrow>
     l_MaxDependencyRecursionLevel < rstack + int (length cs) \<Longrightarrow>
     IsReachable w c dt fd rstack = (False, fd)"
proof (induction cs arbitrary: c rstack)
  case Nil
  then show ?case by (simp add: IsReachable.simps)
next
  case (Cons p cs)
  show ?case
  proof (cases "l_MaxDependencyRecursionLevel < rstack")
    case True
    then show ?thesis by (simp add: IsReachable.simps)
  next
    case False
    from Cons.prems(2) have "l_MaxDependencyRecursionLevel < (rstack + 1) + int (length cs)"
      by simp
    from Cons.IH[OF linear_chain_step(3)[OF Cons.prems(1)] this]
    have "IsReachable w p dt fd (rstack + 1) = (False, fd)" .
    with False linear_chain_step(1)[OF Cons.prems(1)] show ?thesis
      by (simp add: IsReachable.simps[of w c] Let_def)
  qed
qed

lemma linear_chain_within:
  assumes it: "\<And>m. set (unordered_iteration w m) = set m"
  shows "linear_chain w dt (c # cs) \<Longrightarrow>
     \<forall>x \<in> set (c # cs). \<not> host_gate w x dt \<Longrightarrow>
     rstack + int (length cs) \<le> l_MaxDependencyRecursionLevel \<Longrightarrow>
     fst (IsReachable w c dt fd rstack)"
proof (induction cs arbitrary: c rstack fd)
  case Nil
  then have "GetDependencies w c = []" by simp
  moreover from this have "GetParents w c = []" by (simp add: GetParents_def)
  ultimately show ?case
    using Nil.prems unfolding IsReachable_fst[OF it, of c dt fd rstack] by simp
next
  case (Cons p cs)
  from linear_chain_step(2)[OF Cons.prems(1)] obtain dep where
    dep: "GetDependencies w c = [dep]" "IsAvailable w dep dt" by blast
  from Cons.prems(2) have g: "\<forall>x \<in> set (p # cs). \<not> host_gate w x dt" by simp
  from Cons.prems(3) have "(rstack + 1) + int (length cs) \<le> l_MaxDependencyRecursionLevel"
    by simp
  from Cons.IH[OF linear_chain_step(3)[OF Cons.prems(1)] g this]
  have "fst (IsReachable w p dt NoOut (rstack + 1))" .
  with dep linear_chain_step(1)[OF Cons.prems(1)] Cons.prems(2,3) show ?case
    unfolding IsReachable_fst[OF it, of c dt fd rstack] by simp
qed

lemma linear_chain_chain_world:
  "i \<le> n \<Longrightarrow> linear_chain (chain_world n) dt (i # [Suc i..<Suc n])"
proof (induction "n - i" arbitrary: i)
  case 0
  then show ?case
    by (simp add: chain_world_def plain_world_def GetDependencies_def)
next
  case (Suc k)
  then have lt: "i < n" and "k = n - Suc i" and "Suc i \<le> n" by simp_all
  from Suc.hyps(1)[OF this(2,3)]
  have "linear_chain (chain_world n) dt (Suc i # [Suc (Suc i)..<Suc n])" .
  moreover from lt have "[Suc i..<Suc n] = Suc i # [Suc (Suc i)..<Suc n]"
    by (simp add: upt_conv_Cons)
  ultimately show ?case using lt
    by (simp add: chain_world_def plain_world_def GetDependencies_def mk_dep_def)
qed

text \<open>
  Claim C6. In a linear chain of 257 edges, all of them available, the query for the bottom
  checkable at depth 0 returns false: the recursion reaches the top of the chain at depth
  257, where the depth guard ends it, and no call on the way writes the violating-edge
  output. In a linear chain of 256 edges, all of them available and no checkable blocked by
  the host gate, the query completes and returns true (with the output null). The function
  is total: every call returns.
\<close>

theorem chain_depth:
  assumes "linear_chain w dt (c # cs)"
  shows "(length cs = 257 \<longrightarrow> IsReachable w c dt fd 0 = (False, fd)) \<and>
    (length cs = 256 \<and> (\<forall>m. set (unordered_iteration w m) = set m) \<and>
     (\<forall>x \<in> set (c # cs). \<not> host_gate w x dt) \<longrightarrow>
       IsReachable w c dt fd 0 = (True, store fd None))"
proof (intro conjI impI)
  assume "length cs = 257"
  then show "IsReachable w c dt fd 0 = (False, fd)"
    using linear_chain_too_deep[OF assms, of 0 fd]
    by (simp add: l_MaxDependencyRecursionLevel_def)
next
  assume a: "length cs = 256 \<and> (\<forall>m. set (unordered_iteration w m) = set m) \<and>
     (\<forall>x \<in> set (c # cs). \<not> host_gate w x dt)"
  then have "fst (IsReachable w c dt fd 0)"
    using linear_chain_within[of w dt c cs 0 fd] assms
    by (simp add: l_MaxDependencyRecursionLevel_def)
  with true_out(1)[of w c dt fd 0] show "IsReachable w c dt fd 0 = (True, store fd None)"
    by (simp add: prod_eq_iff)
qed

theorem chain_depth_witness:
  "linear_chain (chain_world 257) DependencyState (0 # [1..<258]) \<and>
   length [1..<258::nat] = 257 \<and>
   IsReachable (chain_world 257) 0 DependencyState (Out None) 0 = (False, Out None) \<and>
   linear_chain (chain_world 256) DependencyState (0 # [1..<257]) \<and>
   length [1..<257::nat] = 256 \<and>
   IsReachable (chain_world 256) 0 DependencyState (Out (Some (mk_dep ''stale'' 5 6 []))) 0 =
     (True, Out None)"
proof -
  have a: "linear_chain (chain_world 257) DependencyState (0 # [1..<258])"
    using linear_chain_chain_world[of 0 257 DependencyState] by simp
  have b: "linear_chain (chain_world 256) DependencyState (0 # [1..<257])"
    using linear_chain_chain_world[of 0 256 DependencyState] by simp
  have c: "\<forall>m. set (unordered_iteration (chain_world 256) m) = set m"
    by (simp add: chain_world_def plain_world_def)
  have d: "\<forall>x \<in> set (0 # [1..<257]). \<not> host_gate (chain_world 256) x DependencyState"
    by (simp add: host_gate_def chain_world_def plain_world_def)
  from chain_depth[OF a, of "Out None"] chain_depth[OF b, of "Out (Some (mk_dep ''stale'' 5 6 []))"]
    a b c d show ?thesis by simp
qed

subsection \<open>The output variable at the depth guard\<close>

text \<open>
  The depth guard returns before anything is written to the output variable, so the
  variable holds after the call what it held before.
\<close>

lemma depth_guard_returns_unchanged:
  "l_MaxDependencyRecursionLevel < rstack \<Longrightarrow>
     IsReachable w this dt failedDependency rstack = (False, failedDependency)"
  by (simp add: IsReachable.simps)

text \<open>
  Claim C5 says that a call of \<^verbatim>\<open>IsReachable\<close> whose depth exceeds the ceiling of 256
  returns false with the violating-edge output null. The code returns false, but it does
  not reset the output, as the host gate and the return of true do: with an output variable
  that still holds the edge of an earlier query, a call at depth 257 leaves that edge in the
  variable. The same happens to a query at depth 0 for the bottom of a linear chain of 257
  available edges, which ends at the depth guard: it returns false and the output is the
  stale edge, which belongs to no checkable of the chain.
\<close>

theorem depth_guard_output_not_null:
  "l_MaxDependencyRecursionLevel < 257 \<and>
   IsReachable plain_world 0 DependencyState (Out (Some (mk_dep ''stale'' 300 301 []))) 257 =
     (False, Out (Some (mk_dep ''stale'' 300 301 []))) \<and>
   IsReachable (chain_world 257) 0 DependencyState
       (Out (Some (mk_dep ''stale'' 300 301 []))) 0 =
     (False, Out (Some (mk_dep ''stale'' 300 301 []))) \<and>
   Out (Some (mk_dep ''stale'' 300 301 [])) \<noteq> Out None"
proof -
  have "linear_chain (chain_world 257) DependencyState (0 # [1..<258])"
    using linear_chain_chain_world[of 0 257 DependencyState] by simp
  from linear_chain_too_deep[OF this, of 0 "Out (Some (mk_dep ''stale'' 300 301 []))"]
  have "IsReachable (chain_world 257) 0 DependencyState
       (Out (Some (mk_dep ''stale'' 300 301 []))) 0 =
     (False, Out (Some (mk_dep ''stale'' 300 301 [])))"
    by (simp add: l_MaxDependencyRecursionLevel_def)
  then show ?thesis
    by (simp add: IsReachable.simps l_MaxDependencyRecursionLevel_def)
qed

section \<open>All children\<close>

declare GetAllChildrenInternal.simps [simp del]

lemma set_GetAllChildrenInternal_loop:
  "set (GetAllChildrenInternal_loop w cs level lc) =
     set lc \<union>
     (\<Union>c \<in> set cs.
        (if GetChildren w c \<noteq> []
         then set (GetAllChildrenInternal w (GetChildren w c) (level + 1)) else {}) \<union>
        (if level \<noteq> 0 then {c} else {}))"
  by (induction cs arbitrary: lc)
    (auto simp: Let_def set_set_insert set_set_insert_range)

lemma set_GetAllChildrenInternal:
  "set (GetAllChildrenInternal w children level) =
     (if level > l_MaxDependencyRecursionLevel then set children
      else set children \<union>
        (\<Union>c \<in> set children.
           (if GetChildren w c \<noteq> []
            then set (GetAllChildrenInternal w (GetChildren w c) (level + 1)) else {}) \<union>
           (if level \<noteq> 0 then {c} else {})))"
  by (simp add: GetAllChildrenInternal.simps[of w children] set_set_insert_range
      set_GetAllChildrenInternal_loop Un_commute)

lemma distinct_GetAllChildrenInternal:
  "distinct children \<Longrightarrow> distinct (GetAllChildrenInternal w children level)"
  by (simp add: GetAllChildrenInternal.simps[of w children] distinct_set_insert_range)

lemma distinct_GetAllChildren: "distinct (GetAllChildren w this)"
  by (simp add: GetAllChildren_def distinct_GetAllChildrenInternal distinct_GetChildren)

lemma self_not_child: "this \<notin> set (GetChildren w this)"
  by (simp add: GetChildren_def set_GetChildren_loop)

lemmas closure_eval_defs =
  GetAllChildren_def GetAllChildrenCount_def GetAllChildrenInternal.simps GetChildren_def
  GetReverseDependencies_def l_MaxDependencyRecursionLevel_def set_insert_def
  set_insert_range_def mk_dep_def Let_def

text \<open>
  Claim C8. In the diamond in which B and D are the children of A, C is the only child of B
  and the only child of D, and C has no child, \<^verbatim>\<open>GetAllChildren\<close> of A is the set of B, C
  and D, without duplicates, and \<^verbatim>\<open>GetAllChildrenCount\<close> of A is 3, the number of elements
  of that set.
\<close>

theorem diamond_all_children:
  assumes "set (GetChildren w A) = {B, D}"
    and "set (GetChildren w B) = {C}"
    and "set (GetChildren w D) = {C}"
    and "GetChildren w C = []"
    and "B \<noteq> D"
  shows "set (GetAllChildren w A) = {B, C, D} \<and> distinct (GetAllChildren w A) \<and>
    GetAllChildrenCount w A = 3 \<and>
    GetAllChildrenCount w A = card (set (GetAllChildren w A))"
proof -
  have ne: "GetChildren w B \<noteq> []" "GetChildren w D \<noteq> []" "GetChildren w A \<noteq> []"
    using assms(1,2,3) by auto
  have cb: "C \<noteq> B" using self_not_child[of B w] assms(2) by auto
  have cd: "C \<noteq> D" using self_not_child[of D w] assms(3) by auto
  have one: "set (GetAllChildrenInternal w (GetChildren w X) 1) = {C}"
    if "set (GetChildren w X) = {C}" for X
    unfolding set_GetAllChildrenInternal[of w "GetChildren w X" 1]
    using that assms(4) by (simp add: l_MaxDependencyRecursionLevel_def)
  have s: "set (GetAllChildren w A) = {B, C, D}"
    unfolding GetAllChildren_def set_GetAllChildrenInternal[of w "GetChildren w A" 0]
    using assms(1) ne one[OF assms(2)] one[OF assms(3)]
    by (auto simp: l_MaxDependencyRecursionLevel_def)
  have d: "distinct (GetAllChildren w A)" by (rule distinct_GetAllChildren)
  have c: "GetAllChildrenCount w A = card (set (GetAllChildren w A))"
    by (simp add: GetAllChildrenCount_def distinct_card[OF d])
  have "card {B, C, D} = 3" using assms(5) cb cd by auto
  with s d c show ?thesis by simp
qed

theorem diamond_all_children_witness:
  "GetChildren diamond_world 0 = [1, 3] \<and> GetChildren diamond_world 1 = [2] \<and>
   GetChildren diamond_world 3 = [2] \<and> GetChildren diamond_world 2 = [] \<and>
   GetAllChildren diamond_world 0 = [1, 2, 3] \<and> GetAllChildrenCount diamond_world 0 = 3"
proof -
  have a: "GetChildren diamond_world 0 = [1, 3]" "GetChildren diamond_world 1 = [2]"
    "GetChildren diamond_world 3 = [2]" "GetChildren diamond_world 2 = []"
    by (simp_all add: closure_eval_defs diamond_world_def plain_world_def)
  have b: "GetAllChildren diamond_world 0 = [1, 2, 3]"
    by (simp add: closure_eval_defs diamond_world_def plain_world_def)
  have "set (GetChildren diamond_world 0) = {1, 3}" "set (GetChildren diamond_world 1) = {2}"
    "set (GetChildren diamond_world 3) = {2}" "(1::nat) \<noteq> 3"
    using a by simp_all
  from diamond_all_children[OF this(1,2,3) a(4) this(4)] a b show ?thesis by simp
qed

lemma cycle_level:
  "GetChildren w X = [Y] \<Longrightarrow> GetChildren w Y = [X] \<Longrightarrow> 1 \<le> level \<Longrightarrow>
     level \<le> l_MaxDependencyRecursionLevel \<Longrightarrow>
     set (GetAllChildrenInternal w [X] level) = {X, Y}"
proof (induction "nat (l_MaxDependencyRecursionLevel - level)" arbitrary: level X Y)
  case 0
  then have l: "level = l_MaxDependencyRecursionLevel" by simp
  have "set (GetAllChildrenInternal w [Y] (level + 1)) = {Y}"
    unfolding set_GetAllChildrenInternal[of w "[Y]" "level + 1"] using l by simp
  with 0 show ?case
    unfolding set_GetAllChildrenInternal[of w "[X]" level] by auto
next
  case (Suc n)
  then have "n = nat (l_MaxDependencyRecursionLevel - (level + 1))" "1 \<le> level + 1"
    "level + 1 \<le> l_MaxDependencyRecursionLevel" by simp_all
  from Suc.hyps(1)[OF this(1) Suc.prems(2,1) this(2,3)]
  have "set (GetAllChildrenInternal w [Y] (level + 1)) = {Y, X}" .
  with Suc.prems show ?case
    unfolding set_GetAllChildrenInternal[of w "[X]" level] by auto
qed

text \<open>
  Claim C10. In a cycle of two checkables, where B is the only child of A and A is the only
  child of B, \<^verbatim>\<open>GetAllChildren\<close> of A is the set of A and B: it contains A itself, although
  \<^verbatim>\<open>GetChildren\<close> of A does not. Such a configuration exists (the witness below).
\<close>

theorem cycle_all_children_contains_self:
  assumes "GetChildren w A = [B]" and "GetChildren w B = [A]"
  shows "A \<in> set (GetAllChildren w A) \<and> A \<notin> set (GetChildren w A) \<and>
    set (GetAllChildren w A) = {A, B}"
proof -
  have "set (GetAllChildrenInternal w [A] 1) = {A, B}"
    using cycle_level[OF assms, of 1] by (simp add: l_MaxDependencyRecursionLevel_def)
  then have "set (GetAllChildren w A) = {A, B}"
    unfolding GetAllChildren_def assms(1) set_GetAllChildrenInternal[of w "[B]" 0]
    using assms(2) by (auto simp: l_MaxDependencyRecursionLevel_def)
  with self_not_child[of A w] show ?thesis by simp
qed

theorem cycle_all_children_contains_self_witness:
  "GetChildren cycle_world 0 = [1] \<and> GetChildren cycle_world 1 = [0] \<and>
   0 \<in> set (GetAllChildren cycle_world 0) \<and> 0 \<notin> set (GetChildren cycle_world 0) \<and>
   set (GetAllChildren cycle_world 0) = {0, 1}"
proof -
  have a: "GetChildren cycle_world 0 = [1]" "GetChildren cycle_world 1 = [0]"
    by (simp_all add: closure_eval_defs cycle_world_def plain_world_def)
  from cycle_all_children_contains_self[OF a] a show ?thesis by simp
qed

end
